theory Spec2Isabelle
  imports Main
begin

section \<open>Python numerics used by the scripts\<close>

text \<open>
  The scripts work on Python integers (unbounded, modelled as \<open>int\<close>) and call
  \<^verbatim>\<open>int(math.sqrt(x))\<close>.  \<^verbatim>\<open>math.sqrt\<close> first converts its integer argument to a
  binary64 number (53 significant bits, round half to even, \<^verbatim>\<open>OverflowError\<close> when
  the rounded value reaches \<open>2 ^ 1024\<close>), raises \<^verbatim>\<open>ValueError\<close> on a negative
  argument and otherwise returns the correctly rounded square root; \<^verbatim>\<open>int\<close>
  truncates.  All of this is computed below on natural numbers: a binary64 value
  is a pair \<open>(m, e)\<close> standing for \<open>m * 2 ^ e\<close>.
\<close>

datatype py_error = OverflowError | ValueError

fun bit_length :: "nat \<Rightarrow> nat" where
  "bit_length n = (if n = 0 then 0 else Suc (bit_length (n div 2)))"

declare bit_length.simps [simp del]

fun isqrt :: "nat \<Rightarrow> nat" where
  "isqrt n =
     (if n < 2 then n
      else let r = 2 * isqrt (n div 4)
           in if (r + 1) * (r + 1) \<le> n then r + 1 else r)"

declare isqrt.simps [simp del]

definition round_half_even :: "nat \<Rightarrow> nat \<Rightarrow> nat" where
  \<comment> \<open>\<open>x / 2 ^ sh\<close> rounded to the nearest integer, ties to the even one\<close>
  "round_half_even x sh =
     (let q = x div 2 ^ sh; r = x mod 2 ^ sh
      in if 2 * r > 2 ^ sh \<or> (2 * r = 2 ^ sh \<and> odd q) then q + 1 else q)"

definition float_of_nat :: "nat \<Rightarrow> py_error + nat" where
  \<comment> \<open>the binary64 value nearest to \<open>x\<close>; it is an integer again\<close>
  "float_of_nat x =
     (let sh = bit_length x - 53;
          d = round_half_even x sh * 2 ^ sh
      in if d \<ge> 2 ^ 1024 then Inl OverflowError else Inr d)"

definition sqrt_double :: "nat \<Rightarrow> nat \<times> int" where
  \<comment> \<open>correctly rounded square root of the binary64 value \<open>d\<close>: \<open>t\<close> holds the
      first 54 bits of the root, \<open>sticky\<close> tells whether anything follows them\<close>
  "sqrt_double d =
     (if d = 0 then (0, 0)
      else let e = int (bit_length (isqrt d)) - 54;
               t = (if e \<le> 0 then isqrt (d * 4 ^ nat (- e)) else isqrt d div 2 ^ nat e);
               sticky = (if e \<le> 0 then t * t \<noteq> d * 4 ^ nat (- e)
                         else (t * 2 ^ nat e) * (t * 2 ^ nat e) \<noteq> d);
               m = t div 2;
               up = (odd t \<and> (sticky \<or> odd m))
           in (if up then m + 1 else m, e + 1))"

definition int_of_float :: "nat \<times> int \<Rightarrow> int" where
  "int_of_float f =
     (case f of (m, e) \<Rightarrow> if e \<ge> 0 then int (m * 2 ^ nat e) else int (m div 2 ^ nat (- e)))"

definition math_sqrt :: "int \<Rightarrow> py_error + nat \<times> int" where
  "math_sqrt x =
     (case float_of_nat (nat \<bar>x\<bar>) of
        Inl err \<Rightarrow> Inl err
      | Inr d \<Rightarrow> if x < 0 \<and> d \<noteq> 0 then Inl ValueError else Inr (sqrt_double d))"

definition int_sqrt :: "int \<Rightarrow> py_error + int" where
  \<comment> \<open>\<^verbatim>\<open>int(math.sqrt(x))\<close>\<close>
  "int_sqrt x = (case math_sqrt x of Inl err \<Rightarrow> Inl err | Inr f \<Rightarrow> Inr (int_of_float f))"

section \<open>The toolkit\<close>

definition triangular_number :: "int \<Rightarrow> int" where
  "triangular_number n = n * (n + 1) div 2"

definition is_perfect_square :: "int \<Rightarrow> py_error + bool" where
  "is_perfect_square x =
     (if x < 0 then Inr False
      else case int_sqrt x of
             Inl err \<Rightarrow> Inl err
           | Inr root \<Rightarrow> Inr (root * root = x))"

definition is_square_of_triangular :: "int \<Rightarrow> py_error + bool \<times> int" where
  "is_square_of_triangular x =
     (case is_perfect_square x of
        Inl err \<Rightarrow> Inl err
      | Inr sq \<Rightarrow>
          if \<not> sq then Inr (False, 0)
          else case int_sqrt x of
            Inl err \<Rightarrow> Inl err
          | Inr sqrt_x \<Rightarrow>
              let discriminant = 1 + 8 * sqrt_x
              in case is_perfect_square discriminant of
                   Inl err \<Rightarrow> Inl err
                 | Inr dsq \<Rightarrow>
                     if \<not> dsq then Inr (False, 0)
                     else case int_sqrt discriminant of
                       Inl err \<Rightarrow> Inl err
                     | Inr sqrt_discriminant \<Rightarrow>
                         let n1 = (- 1 + sqrt_discriminant) div 2;
                             n2 = (- 1 - sqrt_discriminant) div 2;
                             n = max n1 n2
                         in if n > 0 \<and> triangular_number n = sqrt_x
                            then Inr (True, n) else Inr (False, 0))"

text \<open>
  The loop \<^verbatim>\<open>for n in range(1, max_n + 1)\<close> of \<^verbatim>\<open>is_difference_of_triangulars\<close>,
  as a recursion over the values of \<open>n\<close> still to be tried.
\<close>

fun difference_loop :: "int \<Rightarrow> int list \<Rightarrow> py_error + bool \<times> int \<times> int" where
  "difference_loop x [] = Inr (False, 0, 0)"
| "difference_loop x (n # ns) =
     (let T_n = triangular_number n;
          target_T_m = T_n + x;
          discriminant = 1 + 8 * target_T_m
      in case is_perfect_square discriminant of
           Inl err \<Rightarrow> Inl err
         | Inr dsq \<Rightarrow>
             if dsq then
               (case int_sqrt discriminant of
                  Inl err \<Rightarrow> Inl err
                | Inr sqrt_discriminant \<Rightarrow>
                    let m1 = (- 1 + sqrt_discriminant) div 2;
                        m2 = (- 1 - sqrt_discriminant) div 2;
                        m = max m1 m2
                    in if m > n \<and> triangular_number m = target_T_m
                       then Inr (True, n, m)
                       else difference_loop x ns)
             else difference_loop x ns)"

definition is_difference_of_triangulars :: "int \<Rightarrow> py_error + bool \<times> int \<times> int" where
  "is_difference_of_triangulars x = difference_loop x [1..1000]"

text \<open>
  The driver of \<^verbatim>\<open>ConnerFrac_v0.1.0.py\<close>: \<^verbatim>\<open>for x in range(1, 10001)\<close>.  Printing is
  left out; \<open>None\<close> is Python's \<^verbatim>\<open>None\<close>.
\<close>

fun solution_loop :: "int list \<Rightarrow> py_error + (int \<times> int \<times> int \<times> int) option" where
  "solution_loop [] = Inr None"
| "solution_loop (x # xs) =
     (case is_square_of_triangular x of
        Inl err \<Rightarrow> Inl err
      | Inr (is_square_tri, n1) \<Rightarrow>
          if is_square_tri then
            (case is_difference_of_triangulars x of
               Inl err \<Rightarrow> Inl err
             | Inr (is_diff_tri, n2, m) \<Rightarrow>
                 if is_diff_tri then Inr (Some (x, n1, n2, m)) else solution_loop xs)
          else solution_loop xs)"

definition find_smallest_solution :: "py_error + (int \<times> int \<times> int \<times> int) option" where
  "find_smallest_solution = solution_loop [1..10000]"

text \<open>
  \<^verbatim>\<open>is_triangular_of_square_of_triangular\<close> (\<^verbatim>\<open>TriangularSquareDiff\<close> v0.1.2 and
  v0.1.4): the loop over \<^verbatim>\<open>range(1, max_n + 1)\<close> with its \<^verbatim>\<open>break\<close>, which leads to
  the final \<^verbatim>\<open>return False, 0\<close>.  No square root is taken here.
\<close>

fun tst_loop :: "int \<Rightarrow> int list \<Rightarrow> bool \<times> int" where
  "tst_loop x [] = (False, 0)"
| "tst_loop x (n # ns) =
     (let T_n = triangular_number n;
          T_n_squared = T_n * T_n;
          T_of_T_n_squared = triangular_number T_n_squared
      in if T_of_T_n_squared = x then (True, n)
         else if T_of_T_n_squared > x then (False, 0)
         else tst_loop x ns)"

definition is_triangular_of_square_of_triangular :: "int \<Rightarrow> bool \<times> int" where
  "is_triangular_of_square_of_triangular x = tst_loop x [1..20]"

definition is_square_of_triangular_of_square_of_triangular ::
    "int \<Rightarrow> py_error + bool \<times> int" where
  "is_square_of_triangular_of_square_of_triangular x =
     (case is_perfect_square x of
        Inl err \<Rightarrow> Inl err
      | Inr sq \<Rightarrow>
          if \<not> sq then Inr (False, 0)
          else case int_sqrt x of
            Inl err \<Rightarrow> Inl err
          | Inr sqrt_x \<Rightarrow> Inr (tst_loop sqrt_x [1..10]))"

definition is_sum_of_consecutive_triangulars :: "int \<Rightarrow> py_error + bool \<times> int" where
  "is_sum_of_consecutive_triangulars x =
     (case is_perfect_square x of
        Inl err \<Rightarrow> Inl err
      | Inr sq \<Rightarrow>
          if \<not> sq then Inr (False, 0)
          else case int_sqrt x of
            Inl err \<Rightarrow> Inl err
          | Inr sqrt_x \<Rightarrow>
              let n = sqrt_x - 1
              in if n > 0 \<and> triangular_number n + triangular_number (n + 1) = x
                 then Inr (True, n) else Inr (False, 0))"

text \<open>
  The value the loops compare with: \<open>T\<close> of the square of \<open>T n\<close>.
\<close>

definition T_of_T_n_squared :: "int \<Rightarrow> int" where
  "T_of_T_n_squared n = triangular_number (triangular_number n * triangular_number n)"

section \<open>Evaluating the square root on numerals\<close>

lemma bit_length_0 [simp]: "bit_length 0 = 0"
  by (simp add: bit_length.simps)

lemma bit_length_Suc_0 [simp]: "bit_length (Suc 0) = 1"
  by (simp add: bit_length.simps [of "Suc 0"])

lemma bit_length_numeral [simp]:
  "bit_length (numeral k) = 1 + bit_length (numeral k div 2)"
  by (subst bit_length.simps) simp

lemma isqrt_0 [simp]: "isqrt 0 = 0"
  by (simp add: isqrt.simps)

lemma isqrt_Suc_0 [simp]: "isqrt (Suc 0) = Suc 0"
  by (simp add: isqrt.simps)

lemma isqrt_numeral [simp]:
  "isqrt (numeral k) =
     (if numeral k < (2::nat) then numeral k
      else let r = 2 * isqrt (numeral k div 4)
           in if (r + 1) * (r + 1) \<le> numeral k then r + 1 else r)"
  by (rule isqrt.simps)

lemmas int_sqrt_eval =
  int_sqrt_def math_sqrt_def float_of_nat_def round_half_even_def sqrt_double_def
  int_of_float_def

section \<open>The integer square root and the bit length\<close>

lemma isqrt_bounds: "isqrt n * isqrt n \<le> n \<and> n < (isqrt n + 1) * (isqrt n + 1)"
proof (induction n rule: isqrt.induct)
  case (1 n)
  show ?case
  proof (cases "n < 2")
    case True
    then have "n = 0 \<or> n = 1" by auto
    then show ?thesis by auto
  next
    case False
    define q where "q = isqrt (n div 4)"
    from 1 [OF False] have lo: "q * q \<le> n div 4" and hi: "n div 4 < (q + 1) * (q + 1)"
      by (simp_all add: q_def)
    have lo': "(2 * q) * (2 * q) \<le> n" using lo by simp
    have "n div 4 + 1 \<le> (q + 1) * (q + 1)" using hi by simp
    then have hi': "n < (2 * q + 2) * (2 * q + 2)" by (simp add: algebra_simps)
    have eq: "isqrt n = (if (2 * q + 1) * (2 * q + 1) \<le> n then 2 * q + 1 else 2 * q)"
      using False by (subst isqrt.simps) (simp add: q_def Let_def)
    show ?thesis
    proof (cases "(2 * q + 1) * (2 * q + 1) \<le> n")
      case True
      then show ?thesis using hi' by (simp add: eq)
    next
      case False
      then show ?thesis using lo' by (simp add: eq)
    qed
  qed
qed

lemma le_isqrt:
  assumes "a * a \<le> n"
  shows "a \<le> isqrt n"
proof (rule ccontr)
  assume "\<not> a \<le> isqrt n"
  then have "isqrt n + 1 \<le> a" by linarith
  then have "(isqrt n + 1) * (isqrt n + 1) \<le> a * a" by (intro mult_le_mono)
  with assms have "(isqrt n + 1) * (isqrt n + 1) \<le> n" by linarith
  with isqrt_bounds [of n] show False by linarith
qed

lemma isqrt_less:
  assumes "n < a * a"
  shows "isqrt n < a"
proof (rule ccontr)
  assume "\<not> isqrt n < a"
  then have "a \<le> isqrt n" by linarith
  then have "a * a \<le> isqrt n * isqrt n" by (intro mult_le_mono)
  with isqrt_bounds [of n] have "a * a \<le> n" by linarith
  with assms show False by linarith
qed

lemma isqrt_square [simp]: "isqrt (k * k) = k"
proof -
  have "k \<le> isqrt (k * k)" by (rule le_isqrt) simp
  moreover have "isqrt (k * k) < k + 1" by (rule isqrt_less) simp
  ultimately show ?thesis by simp
qed

lemma bit_length_le: "n < 2 ^ k \<Longrightarrow> bit_length n \<le> k"
proof (induction n arbitrary: k rule: bit_length.induct)
  case (1 n)
  show ?case
  proof (cases "n = 0")
    case True
    then show ?thesis by simp
  next
    case False
    with 1(2) obtain j where k: "k = Suc j" by (cases k) auto
    with 1(2) have "n div 2 < 2 ^ j" by auto
    from 1(1) [OF False this] show ?thesis
      using False by (subst bit_length.simps) (simp add: k)
  qed
qed

lemma less_bit_length: "n < 2 ^ bit_length n"
proof (induction n rule: bit_length.induct)
  case (1 n)
  show ?case
  proof (cases "n = 0")
    case True
    then show ?thesis by simp
  next
    case False
    from 1 [OF False] have "n div 2 < 2 ^ bit_length (n div 2)" .
    then have "n < 2 * 2 ^ bit_length (n div 2)" by auto
    then show ?thesis using False by (subst bit_length.simps) simp
  qed
qed

section \<open>Below \<open>2 ^ 52\<close> the truncated square root is exact\<close>

lemma round_half_even_0 [simp]: "round_half_even x 0 = x"
  by (simp add: round_half_even_def)

lemma float_of_nat_exact:
  assumes "x < 2 ^ 53"
  shows "float_of_nat x = Inr x"
proof -
  have "bit_length x \<le> 53" using assms by (rule bit_length_le)
  then have sh: "bit_length x - 53 = 0" by simp
  have "x < (2::nat) ^ 1024"
    using assms by (rule less_trans) simp
  then show ?thesis by (simp add: float_of_nat_def sh)
qed

lemma trunc_sqrt_exact:
  assumes "x < 2 ^ 52"
  shows "int_of_float (sqrt_double x) = int (isqrt x)"
proof (cases "x = 0")
  case True
  then show ?thesis by (simp add: sqrt_double_def int_of_float_def)
next
  case False
  define r where "r = isqrt x"
  define b where "b = bit_length r"
  have "r < 2 ^ 26"
    unfolding r_def
  proof (rule isqrt_less)
    have "(2::nat) ^ 26 * 2 ^ 26 = 2 ^ 52" by simp
    with assms show "x < 2 ^ 26 * 2 ^ 26" by simp
  qed
  then have b26: "b \<le> 26" unfolding b_def by (rule bit_length_le)
  have rb: "r < 2 ^ b" unfolding b_def by (rule less_bit_length)
  define j where "j = 53 - b"
  define k where "k = 54 - b"
  have kj: "k = Suc j" and jb: "j = Suc (52 - b)" and b52: "b \<le> 52 - b"
    using b26 by (simp_all add: j_def k_def)
  define t where "t = isqrt (x * 4 ^ k)"
  have r_lo: "r * r \<le> x" and r_hi: "x < (r + 1) * (r + 1)"
    using isqrt_bounds [of x] by (simp_all add: r_def)
  have four: "(4::nat) ^ k = 2 ^ k * 2 ^ k"
    by (simp add: power_mult_distrib [symmetric])
  \<comment> \<open>lower bound on t\<close>
  have "(r * 2 ^ k) * (r * 2 ^ k) = (r * r) * 4 ^ k" by (simp add: four)
  also have "\<dots> \<le> x * 4 ^ k" using r_lo by simp
  finally have t_lo: "r * 2 ^ k \<le> t" unfolding t_def by (rule le_isqrt)
  \<comment> \<open>upper bound on t\<close>
  define A where "A = (r + 1) * 2 ^ k"
  have "r + 1 \<le> 2 ^ b" using rb by simp
  also have "\<dots> \<le> 2 ^ (52 - b)" using b52 by (simp add: power_increasing)
  finally have "(r + 1) * (4 * 2 ^ k) \<le> 2 ^ (52 - b) * (4 * 2 ^ k)"
    by (rule mult_le_mono1)
  also have "\<dots> = 2 ^ k * 2 ^ k"
    by (simp add: kj jb)
  finally have A4: "4 * A \<le> 4 ^ k" by (simp add: A_def four ac_simps)
  have "x + 1 \<le> (r + 1) * (r + 1)" using r_hi by simp
  then have "(x + 1) * 4 ^ k \<le> ((r + 1) * (r + 1)) * 4 ^ k" by simp
  also have "\<dots> = A * A" by (simp add: A_def four algebra_simps)
  finally have xA: "x * 4 ^ k + 4 ^ k \<le> A * A" by (simp add: algebra_simps)
  have "1 * 2 ^ k \<le> A" unfolding A_def by (rule mult_le_mono1) simp
  moreover have "(2::nat) \<le> 2 ^ k" by (simp add: kj)
  ultimately have A2: "2 \<le> A" by simp
  define B where "B = A - 2"
  have B: "A = B + 2" using A2 by (simp add: B_def)
  have "x * 4 ^ k < B * B"
  proof -
    have "A * A = B * B + 4 * A - 4" by (simp add: B algebra_simps)
    with xA A4 show ?thesis by (simp add: B)
  qed
  then have t_hi: "t < B" unfolding t_def by (rule isqrt_less)
  define m where "m = t div 2"
  have "2 * (r * 2 ^ j) \<le> t" using t_lo by (simp add: kj)
  then have m_lo: "r * 2 ^ j \<le> m" by (simp add: m_def)
  have "t + 2 < 2 * ((r + 1) * 2 ^ j)" using t_hi B by (simp add: A_def kj)
  then have m_hi: "m + 1 < (r + 1) * 2 ^ j" by (simp add: m_def)
  have d0: "m div 2 ^ j = r"
  proof (rule div_nat_eqI)
    show "2 ^ j * r \<le> m" using m_lo by (simp add: ac_simps)
    show "m < 2 ^ j * Suc r" using m_hi by (simp add: ac_simps)
  qed
  have d1: "Suc m div 2 ^ j = r"
  proof (rule div_nat_eqI)
    show "2 ^ j * r \<le> Suc m" using m_lo by (simp add: ac_simps)
    show "Suc m < 2 ^ j * Suc r" using m_hi by (simp add: ac_simps)
  qed
  have eb: "int (bit_length (isqrt x)) - 54 = - int (Suc j)"
    using b26 by (simp add: b_def r_def j_def)
  have nj: "nat (int n + 1) = Suc n" for n by simp
  have sd: "sqrt_double x =
      (if odd t \<and> (t * t \<noteq> x * 4 ^ Suc j \<or> odd m) then m + 1 else m, - int j)"
    using False unfolding t_def m_def kj by (simp add: sqrt_double_def eb Let_def nj)
  have tr: "int_of_float (mm, - int j) = int (mm div 2 ^ j)" for mm
    by (simp add: int_of_float_def jb nj)
  show ?thesis
    unfolding sd tr r_def [symmetric] using d0 d1 by simp
qed

lemma int_sqrt_exact:
  assumes "0 \<le> x" and "x < 2 ^ 52"
  shows "int_sqrt x = Inr (int (isqrt (nat x)))"
proof -
  have lt: "nat x < 2 ^ 52" using assms by (simp add: nat_less_iff)
  then have "nat x < 2 ^ 53" by (rule less_trans) simp
  then have "float_of_nat (nat x) = Inr (nat x)" by (rule float_of_nat_exact)
  moreover have "nat \<bar>x\<bar> = nat x" using assms by simp
  ultimately show ?thesis
    using assms trunc_sqrt_exact [OF lt]
    by (simp add: int_sqrt_def math_sqrt_def)
qed

section \<open>Triangular numbers and the perfect-square test\<close>

lemma two_triangular: "2 * triangular_number n = n * (n + 1)"
  by (simp add: triangular_number_def)

lemma triangular_nonneg: "0 \<le> triangular_number n"
proof -
  have "0 \<le> n * (n + 1)"
  proof (cases "0 \<le> n")
    case True
    then show ?thesis by simp
  next
    case False
    then have "n \<le> 0" "n + 1 \<le> 0" by simp_all
    then show ?thesis by (rule mult_nonpos_nonpos)
  qed
  then show ?thesis using two_triangular [of n] by linarith
qed

lemma triangular_strict_mono:
  assumes "0 \<le> a" and "a < b"
  shows "triangular_number a < triangular_number b"
proof -
  have "a * (a + 1) < b * (b + 1)"
    using assms by (intro mult_strict_mono) simp_all
  then show ?thesis using two_triangular [of a] two_triangular [of b] by linarith
qed

lemma triangular_inj:
  assumes "0 \<le> a" and "0 \<le> b" and "triangular_number a = triangular_number b"
  shows "a = b"
  using assms triangular_strict_mono [of a b] triangular_strict_mono [of b a]
  by (cases a b rule: linorder_cases) simp_all

lemma int_sqrt_nonneg: "int_sqrt x = Inr r \<Longrightarrow> 0 \<le> r"
  by (auto simp: int_sqrt_def int_of_float_def split: sum.splits prod.splits if_splits)

lemma is_perfect_square_sound:
  assumes "is_perfect_square x = Inr True"
  shows "\<exists>r\<ge>0. int_sqrt x = Inr r \<and> r * r = x"
proof -
  from assms obtain r where "int_sqrt x = Inr r" "r * r = x"
    by (auto simp: is_perfect_square_def split: if_splits sum.splits)
  then show ?thesis using int_sqrt_nonneg [of x r] by blast
qed

lemma is_perfect_square_small:
  assumes "0 \<le> x" and "x < 2 ^ 52"
  shows "is_perfect_square x = Inr (int (isqrt (nat x)) * int (isqrt (nat x)) = x)"
  using assms by (simp add: is_perfect_square_def int_sqrt_exact)

lemma int_sqrt_square:
  assumes "0 \<le> k" and "k < 2 ^ 26"
  shows "int_sqrt (k * k) = Inr k"
proof -
  have "k * k < 2 ^ 26 * 2 ^ 26" using assms by (intro mult_strict_mono) simp_all
  then have "k * k < 2 ^ 52" by simp
  moreover have "nat (k * k) = nat k * nat k" using assms by (simp add: nat_mult_distrib)
  ultimately show ?thesis using assms by (simp add: int_sqrt_exact)
qed

lemma is_perfect_square_square:
  assumes "0 \<le> k" and "k < 2 ^ 26"
  shows "is_perfect_square (k * k) = Inr True"
  using assms by (simp add: is_perfect_square_def int_sqrt_square)

lemma triangular_negate: "triangular_number (- n - 1) = triangular_number n"
proof -
  have "(- n - 1) * (- n - 1 + 1) = n * (n + 1)" by (simp add: algebra_simps)
  then show ?thesis unfolding triangular_number_def by simp
qed

lemma triangular_0 [simp]: "triangular_number 0 = 0"
  by (simp add: triangular_number_def)

lemma T_of_T_n_squared_strict_mono:
  assumes "0 \<le> a" and "a < b"
  shows "T_of_T_n_squared a < T_of_T_n_squared b"
proof -
  have ab: "triangular_number a < triangular_number b"
    using assms by (rule triangular_strict_mono)
  have "triangular_number a * triangular_number a < triangular_number b * triangular_number b"
    using ab triangular_nonneg [of a] by (intro mult_strict_mono') simp_all
  moreover have "0 \<le> triangular_number a * triangular_number a" by simp
  ultimately show ?thesis unfolding T_of_T_n_squared_def by (intro triangular_strict_mono)
qed

lemma tst_loop_cases:
  "tst_loop x ns = (False, 0) \<or> (\<exists>n\<in>set ns. tst_loop x ns = (True, n))"
  by (induction ns) (auto simp: Let_def)

lemma tst_loop_True_iff:
  assumes "sorted_wrt (<) ns" and "\<forall>k\<in>set ns. 0 \<le> k"
  shows "tst_loop x ns = (True, n) \<longleftrightarrow> n \<in> set ns \<and> x = T_of_T_n_squared n"
  using assms
proof (induction ns)
  case Nil
  then show ?case by simp
next
  case (Cons k ns)
  have later: "T_of_T_n_squared k < T_of_T_n_squared j" if "j \<in> set ns" for j
    using Cons.prems that by (intro T_of_T_n_squared_strict_mono) auto
  have IH: "tst_loop x ns = (True, n) \<longleftrightarrow> n \<in> set ns \<and> x = T_of_T_n_squared n"
    using Cons by simp
  consider "T_of_T_n_squared k = x" | "T_of_T_n_squared k > x" | "T_of_T_n_squared k < x" by linarith
  then show ?case
  proof cases
    case 1
    then have "tst_loop x (k # ns) = (True, k)" by (simp add: T_of_T_n_squared_def [symmetric])
    moreover have "n \<notin> set ns" if "x = T_of_T_n_squared n" using later [of n] 1 that by auto
    ultimately show ?thesis using 1 by auto
  next
    case 2
    then have "tst_loop x (k # ns) = (False, 0)" by (simp add: T_of_T_n_squared_def [symmetric])
    moreover have "n \<notin> set ns" if "x = T_of_T_n_squared n" using later [of n] 2 that by auto
    ultimately show ?thesis using 2 by auto
  next
    case 3
    then have "tst_loop x (k # ns) = tst_loop x ns" by (simp add: T_of_T_n_squared_def [symmetric])
    then show ?thesis using IH 3 by auto
  qed
qed

lemma int_sqrt_of_square:
  assumes "0 \<le> k" and "k * k < 2 ^ 52"
  shows "int_sqrt (k * k) = Inr k"
proof -
  have "nat (k * k) = nat k * nat k" using assms by (simp add: nat_mult_distrib)
  then show ?thesis using assms by (simp add: int_sqrt_exact)
qed

lemma discriminant_square: "1 + 8 * triangular_number m = (2 * m + 1) * (2 * m + 1)"
  using two_triangular [of m] by (simp add: algebra_simps)

lemma is_perfect_square_total:
  assumes "x < 2 ^ 52"
  shows "\<exists>b. is_perfect_square x = Inr b"
  using assms by (cases "x < 0") (auto simp: is_perfect_square_def int_sqrt_exact)

lemma difference_loop_hit:
  assumes "0 \<le> m" and "n < m" and "triangular_number m = triangular_number n + x"
    and "1 + 8 * (triangular_number n + x) < 2 ^ 52"
  shows "difference_loop x (n # ns) = Inr (True, n, m)"
proof -
  define k where "k = 2 * m + 1"
  have d: "1 + 8 * (triangular_number n + x) = k * k"
    using discriminant_square [of m] assms(3) by (simp add: k_def)
  have k: "0 \<le> k" "k * k < 2 ^ 52" using assms(1,4) d by (simp_all add: k_def)
  have sq: "int_sqrt (k * k) = Inr k" using k by (rule int_sqrt_of_square)
  have "(- 1 + k) div 2 = m" "(- 1 - k) div 2 = - m - 1" by (simp_all add: k_def)
  then have mx: "max ((- 1 + k) div 2) ((- 1 - k) div 2) = m" using assms(1) by simp
  have ps: "is_perfect_square (k * k) = Inr True"
    using k(1) by (simp add: is_perfect_square_def sq)
  have nonneg: "\<not> k * k < 0" by simp
  show ?thesis
    unfolding difference_loop.simps Let_def d ps sq using assms(2) mx
    by (simp add: assms(3))
qed

lemma difference_loop_miss:
  assumes "\<not> (\<exists>m>n. triangular_number m = triangular_number n + x)"
    and "1 + 8 * (triangular_number n + x) < 2 ^ 52"
  shows "difference_loop x (n # ns) = difference_loop x ns"
proof (cases "1 + 8 * (triangular_number n + x) < 0")
  case True
  then show ?thesis unfolding difference_loop.simps Let_def is_perfect_square_def by simp
next
  case False
  then have "int_sqrt (1 + 8 * (triangular_number n + x)) =
      Inr (int (isqrt (nat (1 + 8 * (triangular_number n + x)))))"
    using assms(2) by (intro int_sqrt_exact) simp_all
  then show ?thesis
    unfolding difference_loop.simps Let_def is_perfect_square_def
    using assms(1) False by auto
qed

lemma difference_loop_result:
  "difference_loop x ns = Inr (b, n, m) \<Longrightarrow>
     (\<not> b \<longrightarrow> n = 0 \<and> m = 0) \<and>
     (b \<longrightarrow> n \<in> set ns \<and> n < m \<and> triangular_number m = triangular_number n + x)"
proof (induction ns)
  case Nil
  then show ?case by simp
next
  case (Cons k ns)
  then show ?case
    by (auto simp: Let_def split: sum.splits if_splits)
qed

section \<open>The predicates on small arguments\<close>

lemmas small_eval =
  is_perfect_square_small int_sqrt_exact triangular_number_def Let_def

lemma is_square_of_triangular_9: "is_square_of_triangular 9 = Inr (True, 2)"
  by (simp add: is_square_of_triangular_def small_eval)

lemma is_square_of_triangular_1: "is_square_of_triangular 1 = Inr (True, 1)"
  by (simp add: is_square_of_triangular_def small_eval)

lemma is_square_of_triangular_2: "is_square_of_triangular 2 = Inr (False, 0)"
  by (simp add: is_square_of_triangular_def small_eval)

lemma is_square_of_triangular_4: "is_square_of_triangular 4 = Inr (False, 0)"
  by (simp add: is_square_of_triangular_def small_eval)

lemma is_sum_of_consecutive_triangulars_9: "is_sum_of_consecutive_triangulars 9 = Inr (True, 2)"
  by (simp add: is_sum_of_consecutive_triangulars_def small_eval)

lemma is_difference_of_triangulars_9: "is_difference_of_triangulars 9 = Inr (True, 1, 4)"
proof -
  have "[1..1000] = 1 # [2..1000::int]" by (subst upto_rec1) simp_all
  moreover have "difference_loop 9 (1 # [2..1000]) = Inr (True, 1, 4)"
    by (rule difference_loop_hit) (simp_all add: triangular_number_def)
  ultimately show ?thesis by (simp add: is_difference_of_triangulars_def)
qed

lemma is_difference_of_triangulars_5: "is_difference_of_triangulars 5 = Inr (True, 1, 3)"
proof -
  have "[1..1000] = 1 # [2..1000::int]" by (subst upto_rec1) simp_all
  moreover have "difference_loop 5 (1 # [2..1000]) = Inr (True, 1, 3)"
    by (rule difference_loop_hit) (simp_all add: triangular_number_def)
  ultimately show ?thesis by (simp add: is_difference_of_triangulars_def)
qed

lemma is_triangular_of_square_of_triangular_9: "is_triangular_of_square_of_triangular 9 = (False, 0)"
proof -
  have "[1..20] = 1 # 2 # [3..20::int]" by (simp add: upto_rec1 [of 1] upto_rec1 [of 2])
  then show ?thesis
    by (simp add: is_triangular_of_square_of_triangular_def triangular_number_def)
qed

lemma is_square_of_triangular_of_square_of_triangular_9: "is_square_of_triangular_of_square_of_triangular 9 = Inr (False, 0)"
proof -
  have "[1..10] = 1 # 2 # [3..10::int]" by (simp add: upto_rec1 [of 1] upto_rec1 [of 2])
  then show ?thesis
    by (simp add: is_square_of_triangular_of_square_of_triangular_def small_eval)
qed

lemma T_of_T_n_squared_10: "T_of_T_n_squared 10 = 4576825"
  by (simp add: T_of_T_n_squared_def triangular_number_def)

lemma T_of_T_n_squared_le_10:
  assumes "1 \<le> n" and "n \<le> 10"
  shows "0 \<le> T_of_T_n_squared n \<and> T_of_T_n_squared n * T_of_T_n_squared n < 2 ^ 52"
proof -
  have nn: "0 \<le> T_of_T_n_squared n" by (simp add: T_of_T_n_squared_def triangular_nonneg)
  have "T_of_T_n_squared n \<le> T_of_T_n_squared 10"
  proof (cases "n = 10")
    case True
    then show ?thesis by simp
  next
    case False
    then have "T_of_T_n_squared n < T_of_T_n_squared 10"
      using assms by (intro T_of_T_n_squared_strict_mono) simp_all
    then show ?thesis by simp
  qed
  then have le: "T_of_T_n_squared n \<le> 4576825" by (simp add: T_of_T_n_squared_10)
  have "T_of_T_n_squared n * T_of_T_n_squared n \<le> 4576825 * 4576825"
    using nn le by (intro mult_mono) simp_all
  then show ?thesis using nn by simp
qed

lemma tst_loop_10_iff:
  "tst_loop r [1..10] = (True, n) \<longleftrightarrow> 1 \<le> n \<and> n \<le> 10 \<and> r = T_of_T_n_squared n"
proof -
  have "tst_loop r [1..10] = (True, n) \<longleftrightarrow> n \<in> set [1..10] \<and> r = T_of_T_n_squared n"
    by (rule tst_loop_True_iff) simp_all
  then show ?thesis by simp
qed

lemma tst_loop_20_iff:
  "tst_loop r [1..20] = (True, n) \<longleftrightarrow> 1 \<le> n \<and> n \<le> 20 \<and> r = T_of_T_n_squared n"
proof -
  have "tst_loop r [1..20] = (True, n) \<longleftrightarrow> n \<in> set [1..20] \<and> r = T_of_T_n_squared n"
    by (rule tst_loop_True_iff) simp_all
  then show ?thesis by simp
qed

lemma triangular_Suc: "triangular_number (n + 1) = triangular_number n + n + 1"
  using two_triangular [of n] two_triangular [of "n + 1"] by (simp add: algebra_simps)

lemma triangular_mono:
  assumes "0 \<le> a" and "a \<le> b"
  shows "triangular_number a \<le> triangular_number b"
  using triangular_strict_mono [of a b] assms by (cases "a = b") simp_all

lemma difference_loop_none:
  assumes "\<forall>n\<in>set ns. 1 + 8 * (triangular_number n + x) < 2 ^ 52 \<and>
             \<not> (\<exists>m>n. triangular_number m = triangular_number n + x)"
  shows "difference_loop x ns = Inr (False, 0, 0)"
  using assms
proof (induction ns)
  case Nil
  then show ?case by simp
next
  case (Cons n ns)
  then have "difference_loop x (n # ns) = difference_loop x ns"
    by (intro difference_loop_miss) simp_all
  then show ?case using Cons by simp
qed

lemma is_difference_of_triangulars_1: "is_difference_of_triangulars 1 = Inr (False, 0, 0)"
  unfolding is_difference_of_triangulars_def
proof (rule difference_loop_none, intro ballI conjI)
  fix n :: int
  assume "n \<in> set [1..1000]"
  then have n: "1 \<le> n" "n \<le> 1000" by simp_all
  have "triangular_number n \<le> triangular_number 1000"
    using n by (intro triangular_mono) simp_all
  then have "triangular_number n \<le> 500500" by (simp add: triangular_number_def)
  then show "1 + 8 * (triangular_number n + 1) < 2 ^ 52" by simp
  show "\<not> (\<exists>m>n. triangular_number m = triangular_number n + 1)"
  proof
    assume "\<exists>m>n. triangular_number m = triangular_number n + 1"
    then obtain m where m: "n < m" "triangular_number m = triangular_number n + 1" by blast
    have "triangular_number (n + 1) \<le> triangular_number m"
      using n m(1) by (intro triangular_mono) simp_all
    then show False using m(2) n(1) by (simp add: triangular_Suc)
  qed
qed

lemma is_square_of_triangular_3: "is_square_of_triangular 3 = Inr (False, 0)"
  by (simp add: is_square_of_triangular_def small_eval)

lemma is_square_of_triangular_5: "is_square_of_triangular 5 = Inr (False, 0)"
  by (simp add: is_square_of_triangular_def small_eval)

lemma is_square_of_triangular_6: "is_square_of_triangular 6 = Inr (False, 0)"
  by (simp add: is_square_of_triangular_def small_eval)

lemma is_square_of_triangular_7: "is_square_of_triangular 7 = Inr (False, 0)"
  by (simp add: is_square_of_triangular_def small_eval)

lemma is_square_of_triangular_8: "is_square_of_triangular 8 = Inr (False, 0)"
  by (simp add: is_square_of_triangular_def small_eval)

lemma upto_first_nine:
  "[1..10000] = 1 # 2 # 3 # 4 # 5 # 6 # 7 # 8 # 9 # [10..10000::int]"
  by (simp add: upto_rec1 [of 1 10000] upto_rec1 [of 2 10000] upto_rec1 [of 3 10000]
      upto_rec1 [of 4 10000] upto_rec1 [of 5 10000] upto_rec1 [of 6 10000]
      upto_rec1 [of 7 10000] upto_rec1 [of 8 10000] upto_rec1 [of 9 10000]
      del: upto_rec_numeral)

section \<open>The square root above \<open>2 ^ 53\<close>\<close>

text \<open>
  The odd number \<open>2 ^ 53 + 1 = 9007199254740993\<close> is not a binary64 value.  Its square is
  rounded to \<open>2 ^ 106 + 2 ^ 54\<close> by the conversion, and the rounded square root of that is
  \<open>2 ^ 53\<close>.  Likewise for the square of the odd triangular number \<open>T 134217729\<close>.
\<close>

lemma int_sqrt_above_2_53:
  "int_sqrt 81129638414606699710187514626049 = Inr 9007199254740992"
proof -
  have "float_of_nat 81129638414606699710187514626049 = Inr 81129638414606699710187514626048"
    by (simp add: float_of_nat_def round_half_even_def)
  moreover have "sqrt_double 81129638414606699710187514626048 = (4503599627370496, 1)"
    by (simp add: sqrt_double_def)
  ultimately show ?thesis by (simp add: int_sqrt_def math_sqrt_def int_of_float_def)
qed

lemma is_perfect_square_above_2_53:
  "is_perfect_square 81129638414606699710187514626049 = Inr False"
  by (simp add: is_perfect_square_def int_sqrt_above_2_53)

lemma int_sqrt_square_of_triangular:
  "int_sqrt 81129642041384199086472087732225 = Inr 9007199456067584"
proof -
  have "float_of_nat 81129642041384199086472087732225 = Inr 81129642041384194582872057708544"
    by (simp add: float_of_nat_def round_half_even_def)
  moreover have "sqrt_double 81129642041384194582872057708544 = (4503599728033792, 1)"
    by (simp add: sqrt_double_def)
  ultimately show ?thesis by (simp add: int_sqrt_def math_sqrt_def int_of_float_def)
qed

section \<open>Properties\<close>

text \<open>
  C2: for every integer \<open>n \<ge> 0\<close>, \<open>triangular_number n\<close> is exactly
  \<open>n * (n + 1) / 2\<close>: the product is even, so the floor division loses nothing, and
  \<open>triangular_number 0 = 0\<close>.
\<close>

theorem triangular_number_exact:
  "0 \<le> n \<Longrightarrow>
     2 * triangular_number n = n * (n + 1) \<and>
     triangular_number n = n * (n + 1) div 2 \<and>
     triangular_number 0 = 0"
  by (simp add: triangular_number_def)

theorem triangular_number_exact_witness:
  "(0::int) \<le> 10 \<and> 2 * triangular_number 10 = 10 * (10 + 1) \<and>
   triangular_number 10 = 10 * (10 + 1) div 2 \<and> triangular_number 0 = 0"
  using triangular_number_exact [of 10] by simp

text \<open>
  C8, as the specification states it: a negative index makes \<open>triangular_number\<close>
  return the sentinel \<open>0\<close>.  The function has no guard: at \<open>- 3\<close> it returns
  \<open>(- 3) * (- 2) div 2 = 3\<close>.
\<close>

theorem triangular_number_negative_counterexample:
  "(- 3 :: int) < 0 \<and> triangular_number (- 3) = 3 \<and> triangular_number (- 3) \<noteq> 0"
  by (simp add: triangular_number_def)

text \<open>
  C8, amended: for a negative index \<open>n\<close>, \<open>triangular_number\<close> returns (without
  raising) the triangular number of \<open>- n - 1\<close>, which is \<open>0\<close> only for \<open>n = - 1\<close>;
  for a negative \<open>x\<close>, \<open>is_perfect_square\<close> returns \<open>False\<close> without calling the
  square root.
\<close>

theorem negative_inputs:
  "n < 0 \<Longrightarrow> x < 0 \<Longrightarrow>
     triangular_number n = triangular_number (- n - 1) \<and>
     (triangular_number n = 0 \<longleftrightarrow> n = - 1) \<and>
     is_perfect_square x = Inr False"
proof (intro conjI)
  assume n: "n < 0" and x: "x < 0"
  show "triangular_number n = triangular_number (- n - 1)"
    by (simp add: triangular_negate)
  show "triangular_number n = 0 \<longleftrightarrow> n = - 1"
  proof
    assume "triangular_number n = 0"
    then have "triangular_number (- n - 1) = triangular_number 0"
      by (simp add: triangular_negate)
    moreover have "0 \<le> - n - 1" using n by simp
    ultimately have "- n - 1 = 0" by (rule triangular_inj [rotated 2]) simp_all
    then show "n = - 1" by simp
  next
    assume "n = - 1"
    then show "triangular_number n = 0" by (simp add: triangular_number_def)
  qed
  show "is_perfect_square x = Inr False" using x by (simp add: is_perfect_square_def)
qed

theorem negative_inputs_witness:
  "(- 4 :: int) < 0 \<and> (- 7 :: int) < 0 \<and>
   triangular_number (- 4) = triangular_number 3 \<and> triangular_number (- 4) \<noteq> 0 \<and>
   is_perfect_square (- 7) = Inr False"
  using negative_inputs [of "- 4" "- 7"] by simp

text \<open>
  C6: for every integer \<open>x \<ge> 1\<close>, \<open>is_triangular_of_square_of_triangular x\<close> returns
  \<open>(True, n)\<close> exactly when \<open>n\<close> is in \<open>[1, 20]\<close> and \<open>x\<close> is \<open>T\<close> of the square of
  \<open>T n\<close>, and \<open>(False, 0)\<close> when there is no such \<open>n\<close>; the early exit loses nothing,
  because that value grows strictly with \<open>n \<ge> 1\<close>.
\<close>

theorem is_triangular_of_square_of_triangular_correct:
  "1 \<le> x \<Longrightarrow>
     (is_triangular_of_square_of_triangular x = (True, n) \<longleftrightarrow>
        1 \<le> n \<and> n \<le> 20 \<and>
        x = triangular_number (triangular_number n * triangular_number n)) \<and>
     ((\<nexists>k. 1 \<le> k \<and> k \<le> 20 \<and>
            x = triangular_number (triangular_number k * triangular_number k)) \<longrightarrow>
        is_triangular_of_square_of_triangular x = (False, 0)) \<and>
     (\<forall>a b. 1 \<le> a \<and> a < b \<longrightarrow>
        triangular_number (triangular_number a * triangular_number a) <
        triangular_number (triangular_number b * triangular_number b))"
proof (intro conjI)
  have iff: "tst_loop x [1..20] = (True, k) \<longleftrightarrow>
      k \<in> set [1..20] \<and> x = T_of_T_n_squared k" for k
    by (rule tst_loop_True_iff) simp_all
  show "is_triangular_of_square_of_triangular x = (True, n) \<longleftrightarrow>
        1 \<le> n \<and> n \<le> 20 \<and>
        x = triangular_number (triangular_number n * triangular_number n)"
    using iff [of n]
    by (simp add: is_triangular_of_square_of_triangular_def T_of_T_n_squared_def)
  show "(\<nexists>k. 1 \<le> k \<and> k \<le> 20 \<and>
            x = triangular_number (triangular_number k * triangular_number k)) \<longrightarrow>
        is_triangular_of_square_of_triangular x = (False, 0)"
    using tst_loop_cases [of x "[1..20]"] iff
    unfolding is_triangular_of_square_of_triangular_def T_of_T_n_squared_def
    by auto
  show "\<forall>a b. 1 \<le> a \<and> a < b \<longrightarrow>
        triangular_number (triangular_number a * triangular_number a) <
        triangular_number (triangular_number b * triangular_number b)"
    using T_of_T_n_squared_strict_mono by (simp add: T_of_T_n_squared_def)
qed

theorem is_triangular_of_square_of_triangular_correct_witness:
  "(1::int) \<le> 45 \<and> is_triangular_of_square_of_triangular 45 = (True, 2) \<and>
   45 = triangular_number (triangular_number 2 * triangular_number 2) \<and>
   triangular_number (triangular_number 1 * triangular_number 1) <
   triangular_number (triangular_number 2 * triangular_number 2)"
  using is_triangular_of_square_of_triangular_correct [of 45 2]
  by (simp add: triangular_number_def)

text \<open>
  C10: whenever one of the five composite predicates returns, a result whose boolean is
  \<open>False\<close> has every witness field \<open>0\<close>, and a result whose boolean is \<open>True\<close> has
  every witness index at least \<open>1\<close>; so index \<open>0\<close> is never reported as a witness.
\<close>

theorem witness_sentinel_invariant:
  "(is_square_of_triangular x = Inr (b1, n1) \<longrightarrow> (if b1 then 1 \<le> n1 else n1 = 0)) \<and>
   (is_difference_of_triangulars x = Inr (b2, n2, m2) \<longrightarrow>
      (if b2 then 1 \<le> n2 \<and> 1 \<le> m2 else n2 = 0 \<and> m2 = 0)) \<and>
   (is_triangular_of_square_of_triangular x = (b3, n3) \<longrightarrow>
      (if b3 then 1 \<le> n3 else n3 = 0)) \<and>
   (is_square_of_triangular_of_square_of_triangular x = Inr (b4, n4) \<longrightarrow>
      (if b4 then 1 \<le> n4 else n4 = 0)) \<and>
   (is_sum_of_consecutive_triangulars x = Inr (b5, n5) \<longrightarrow>
      (if b5 then 1 \<le> n5 else n5 = 0))"
proof (intro conjI impI)
  assume "is_square_of_triangular x = Inr (b1, n1)"
  then show "if b1 then 1 \<le> n1 else n1 = 0"
    by (auto simp: is_square_of_triangular_def Let_def split: sum.splits if_splits)
next
  assume "is_difference_of_triangulars x = Inr (b2, n2, m2)"
  then have "difference_loop x [1..1000] = Inr (b2, n2, m2)"
    by (simp only: is_difference_of_triangulars_def)
  from difference_loop_result [OF this]
  show "if b2 then 1 \<le> n2 \<and> 1 \<le> m2 else n2 = 0 \<and> m2 = 0" by auto
next
  assume "is_triangular_of_square_of_triangular x = (b3, n3)"
  then have "tst_loop x [1..20] = (b3, n3)"
    by (simp only: is_triangular_of_square_of_triangular_def)
  then show "if b3 then 1 \<le> n3 else n3 = 0"
    using tst_loop_cases [of x "[1..20]"] by auto
next
  assume "is_square_of_triangular_of_square_of_triangular x = Inr (b4, n4)"
  then have "(\<not> b4 \<and> n4 = 0) \<or> (\<exists>r. tst_loop r [1..10] = (b4, n4))"
    by (auto simp: is_square_of_triangular_of_square_of_triangular_def
        split: sum.splits if_splits)
  then show "if b4 then 1 \<le> n4 else n4 = 0"
  proof
    assume "\<not> b4 \<and> n4 = 0"
    then show ?thesis by simp
  next
    assume "\<exists>r. tst_loop r [1..10] = (b4, n4)"
    then obtain r where "tst_loop r [1..10] = (b4, n4)" ..
    then show ?thesis using tst_loop_cases [of r "[1..10]"] by auto
  qed
next
  assume "is_sum_of_consecutive_triangulars x = Inr (b5, n5)"
  then show "if b5 then 1 \<le> n5 else n5 = 0"
    by (auto simp: is_sum_of_consecutive_triangulars_def Let_def split: sum.splits if_splits)
qed

theorem witness_sentinel_invariant_witness:
  "is_square_of_triangular 9 = Inr (True, 2) \<and>
   is_difference_of_triangulars 9 = Inr (True, 1, 4) \<and>
   is_triangular_of_square_of_triangular 9 = (False, 0) \<and>
   is_square_of_triangular_of_square_of_triangular 9 = Inr (False, 0) \<and>
   is_sum_of_consecutive_triangulars 9 = Inr (True, 2) \<and>
   (1::int) \<le> 2 \<and> (1::int) \<le> 1 \<and> (1::int) \<le> 4"
  using witness_sentinel_invariant [of 9 True 2 True 1 4 False 0 False 0 True 2]
  by (simp add: is_square_of_triangular_9 is_difference_of_triangulars_9
      is_triangular_of_square_of_triangular_9
      is_square_of_triangular_of_square_of_triangular_9
      is_sum_of_consecutive_triangulars_9)

text \<open>
  C7, as the specification states it: the nested predicate accepts \<open>x\<close> exactly when \<open>x\<close>
  is a perfect square whose root is accepted by \<open>is_triangular_of_square_of_triangular\<close>.
  The root \<open>9489546\<close> is accepted there with \<open>n = 11\<close>, but the nested loop stops at
  \<open>10\<close> and rejects the square.
\<close>

theorem nested_predicate_bound_counterexample:
  "is_perfect_square 90051483286116 = Inr True \<and>
   int_sqrt 90051483286116 = Inr 9489546 \<and>
   is_triangular_of_square_of_triangular 9489546 = (True, 11) \<and>
   is_square_of_triangular_of_square_of_triangular 90051483286116 = Inr (False, 0)"
proof -
  have sq: "int_sqrt (9489546 * 9489546) = Inr 9489546"
    by (rule int_sqrt_of_square) simp_all
  then have sq': "int_sqrt 90051483286116 = Inr 9489546" by simp
  then have ps: "is_perfect_square 90051483286116 = Inr True"
    by (simp add: is_perfect_square_def)
  have one: "is_triangular_of_square_of_triangular 9489546 = (True, 11)"
    unfolding is_triangular_of_square_of_triangular_def tst_loop_20_iff
    by (simp add: T_of_T_n_squared_def triangular_number_def)
  have "tst_loop 9489546 [1..10] \<noteq> (True, n)" for n
  proof
    assume "tst_loop 9489546 [1..10] = (True, n)"
    then have n: "1 \<le> n" "n \<le> 10" "T_of_T_n_squared n = 9489546"
      by (simp_all add: tst_loop_10_iff)
    have "T_of_T_n_squared n \<le> 4576825"
      using T_of_T_n_squared_strict_mono [of n 10] n(1,2)
      by (cases "n = 10") (simp_all add: T_of_T_n_squared_10)
    with n(3) show False by simp
  qed
  then have "tst_loop 9489546 [1..10] = (False, 0)"
    using tst_loop_cases [of 9489546 "[1..10]"] by auto
  then have "is_square_of_triangular_of_square_of_triangular 90051483286116 = Inr (False, 0)"
    using sq' ps by (simp add: is_square_of_triangular_of_square_of_triangular_def)
  with sq' ps one show ?thesis by simp
qed

text \<open>
  C7, amended: for every integer \<open>x\<close>, the nested predicate returns \<open>(True, n)\<close> exactly
  when \<open>n\<close> is in \<open>[1, 10]\<close> and \<open>x\<close> is the square of \<open>T\<close> of the square of \<open>T n\<close>; that is,
  when \<open>x\<close> is the square of a root that \<open>is_triangular_of_square_of_triangular\<close>
  accepts with a witness \<open>n\<close> of at most \<open>10\<close>.
\<close>

theorem nested_predicate_bound:
  "(is_square_of_triangular_of_square_of_triangular x = Inr (True, n) \<longleftrightarrow>
      1 \<le> n \<and> n \<le> 10 \<and>
      x = triangular_number (triangular_number n * triangular_number n) *
          triangular_number (triangular_number n * triangular_number n)) \<and>
   (is_square_of_triangular_of_square_of_triangular x = Inr (True, n) \<longleftrightarrow>
      (\<exists>r\<ge>0. r * r = x \<and> is_triangular_of_square_of_triangular r = (True, n) \<and> n \<le> 10))"
proof -
  have A: "is_square_of_triangular_of_square_of_triangular x = Inr (True, n) \<longleftrightarrow>
      1 \<le> n \<and> n \<le> 10 \<and> x = T_of_T_n_squared n * T_of_T_n_squared n"
  proof
    assume res: "is_square_of_triangular_of_square_of_triangular x = Inr (True, n)"
    then have ps: "is_perfect_square x = Inr True"
      by (auto simp: is_square_of_triangular_of_square_of_triangular_def
          split: sum.splits if_splits)
    then obtain r where r: "int_sqrt x = Inr r" "r * r = x"
      using is_perfect_square_sound by blast
    with res ps have "tst_loop r [1..10] = (True, n)"
      by (simp add: is_square_of_triangular_of_square_of_triangular_def)
    then show "1 \<le> n \<and> n \<le> 10 \<and> x = T_of_T_n_squared n * T_of_T_n_squared n"
      using r by (simp add: tst_loop_10_iff)
  next
    assume R: "1 \<le> n \<and> n \<le> 10 \<and> x = T_of_T_n_squared n * T_of_T_n_squared n"
    define r where "r = T_of_T_n_squared n"
    have r: "0 \<le> r" "r * r < 2 ^ 52"
      using R T_of_T_n_squared_le_10 [of n] by (simp_all add: r_def)
    then have sq: "int_sqrt (r * r) = Inr r" by (rule int_sqrt_of_square)
    then have ps: "is_perfect_square (r * r) = Inr True"
      by (simp add: is_perfect_square_def)
    have "tst_loop r [1..10] = (True, n)" using R by (simp add: tst_loop_10_iff r_def)
    then show "is_square_of_triangular_of_square_of_triangular x = Inr (True, n)"
      using R sq ps
      by (simp add: is_square_of_triangular_of_square_of_triangular_def r_def)
  qed
  have B: "(\<exists>r\<ge>0. r * r = x \<and> is_triangular_of_square_of_triangular r = (True, n) \<and> n \<le> 10)
      \<longleftrightarrow> 1 \<le> n \<and> n \<le> 10 \<and> x = T_of_T_n_squared n * T_of_T_n_squared n"
    using T_of_T_n_squared_le_10 [of n]
    by (auto simp: is_triangular_of_square_of_triangular_def tst_loop_20_iff)
  show ?thesis using A B by (simp add: T_of_T_n_squared_def)
qed

theorem nested_predicate_bound_witness:
  "(1::int) \<le> 1 \<and> (1::int) \<le> 10 \<and>
   (1::int) = triangular_number (triangular_number 1 * triangular_number 1) *
          triangular_number (triangular_number 1 * triangular_number 1) \<and>
   is_square_of_triangular_of_square_of_triangular 1 = Inr (True, 1)"
  using nested_predicate_bound [of 1 1] by (simp add: triangular_number_def)

text \<open>
  C9: the driver of \<^verbatim>\<open>ConnerFrac_v0.1.0.py\<close> returns, without raising, the tuple
  \<open>(9, 2, 1, 4)\<close>: \<open>9\<close> passes both predicates (it is the square of \<open>T 2\<close> and equals
  \<open>T 4 - T 1\<close>), and no smaller \<open>x \<ge> 1\<close> does: \<open>1\<close> is the square of \<open>T 1\<close> but no
  difference found by the search, and \<open>2, \<dots>, 8\<close> are not squares of triangular numbers.
  The loop is a recursion over the finite list \<open>[1..10000]\<close>, so it ends on every run.
\<close>

theorem find_smallest_solution_returns:
  "find_smallest_solution = Inr (Some (9, 2, 1, 4)) \<and>
   is_square_of_triangular 9 = Inr (True, 2) \<and>
   is_difference_of_triangulars 9 = Inr (True, 1, 4) \<and>
   triangular_number 2 * triangular_number 2 = 9 \<and>
   triangular_number 4 - triangular_number 1 = 9 \<and>
   is_square_of_triangular 1 = Inr (True, 1) \<and>
   is_difference_of_triangulars 1 = Inr (False, 0, 0) \<and>
   is_square_of_triangular 2 = Inr (False, 0) \<and>
   is_square_of_triangular 3 = Inr (False, 0) \<and>
   is_square_of_triangular 4 = Inr (False, 0) \<and>
   is_square_of_triangular 5 = Inr (False, 0) \<and>
   is_square_of_triangular 6 = Inr (False, 0) \<and>
   is_square_of_triangular 7 = Inr (False, 0) \<and>
   is_square_of_triangular 8 = Inr (False, 0)"
proof -
  have "solution_loop [1..10000] = Inr (Some (9, 2, 1, 4))"
    unfolding upto_first_nine
    by (simp add: is_square_of_triangular_1 is_difference_of_triangulars_1
        is_square_of_triangular_2 is_square_of_triangular_3 is_square_of_triangular_4
        is_square_of_triangular_5 is_square_of_triangular_6 is_square_of_triangular_7
        is_square_of_triangular_8 is_square_of_triangular_9 is_difference_of_triangulars_9
        del: upto_rec_numeral)
  moreover have "triangular_number 2 * triangular_number 2 = 9"
    "triangular_number 4 - triangular_number 1 = 9"
    by (simp_all add: triangular_number_def)
  ultimately show ?thesis
    by (simp add: find_smallest_solution_def is_square_of_triangular_1
        is_difference_of_triangulars_1
        is_square_of_triangular_2 is_square_of_triangular_3 is_square_of_triangular_4
        is_square_of_triangular_5 is_square_of_triangular_6 is_square_of_triangular_7
        is_square_of_triangular_8 is_square_of_triangular_9 is_difference_of_triangulars_9)
qed

text \<open>
  C1: \<open>is_perfect_square x\<close> should be true exactly for the squares, large ones included.
  At the square of \<open>2 ^ 53 + 1\<close> the truncated floating-point root is \<open>2 ^ 53\<close>, the
  multiplication check fails and the function returns \<open>False\<close>.
\<close>

theorem is_perfect_square_large_square:
  "(81129638414606699710187514626049 :: int) = 9007199254740993 * 9007199254740993 \<and>
   int_sqrt 81129638414606699710187514626049 = Inr 9007199254740992 \<and>
   is_perfect_square 81129638414606699710187514626049 = Inr False"
  by (simp add: int_sqrt_above_2_53 is_perfect_square_above_2_53)

text \<open>
  C3: \<open>is_difference_of_triangulars x\<close> should return the smallest \<open>n\<close> in \<open>[1, 1000]\<close> for
  which \<open>T n + x\<close> is a triangular number \<open>T m\<close>.  For \<open>x = T (2 ^ 52) - T 1\<close> that is
  \<open>n = 1\<close> with \<open>m = 2 ^ 52\<close>, but the discriminant there is the square of \<open>2 ^ 53 + 1\<close>,
  which the perfect-square test rejects: the function does not return \<open>(True, 1, 2 ^ 52)\<close>.
\<close>

theorem is_difference_of_triangulars_large_difference:
  "triangular_number 4503599627370496 =
     triangular_number 1 + 10141204801825837463773439328255 \<and>
   is_difference_of_triangulars 10141204801825837463773439328255 \<noteq>
     Inr (True, 1, 4503599627370496)"
proof -
  have t: "triangular_number 4503599627370496 =
      triangular_number 1 + 10141204801825837463773439328255"
    by (simp add: triangular_number_def)
  have l: "[1..1000] = 1 # [2..1000::int]" by (subst upto_rec1) simp_all
  have step: "difference_loop 10141204801825837463773439328255 (1 # [2..1000]) =
      difference_loop 10141204801825837463773439328255 [2..1000]"
    unfolding difference_loop.simps Let_def
    by (simp add: triangular_number_def is_perfect_square_above_2_53 del: upto_rec_numeral)
  have "difference_loop 10141204801825837463773439328255 [2..1000] \<noteq>
      Inr (True, 1, 4503599627370496)"
  proof
    assume "difference_loop 10141204801825837463773439328255 [2..1000] =
      Inr (True, 1, 4503599627370496)"
    from difference_loop_result [OF this] show False by simp
  qed
  then show ?thesis using t step by (simp only: is_difference_of_triangulars_def l) simp
qed

text \<open>
  C4: \<open>is_sum_of_consecutive_triangulars x\<close> should return \<open>(True, k - 1)\<close> for every
  square \<open>x\<close> of a \<open>k \<ge> 2\<close>.  The square of \<open>k = 2 ^ 53 + 1\<close> is the sum of \<open>T (k - 1)\<close>
  and \<open>T k\<close>, and the function returns \<open>(False, 0)\<close>.
\<close>

theorem is_sum_of_consecutive_triangulars_large_square:
  "81129638414606699710187514626049 =
     triangular_number 9007199254740992 + triangular_number 9007199254740993 \<and>
   is_sum_of_consecutive_triangulars 81129638414606699710187514626049 = Inr (False, 0)"
  by (simp add: is_sum_of_consecutive_triangulars_def is_perfect_square_above_2_53
      triangular_number_def)

text \<open>
  C5: \<open>is_square_of_triangular\<close> applied to the square of \<open>T n\<close> should return
  \<open>(True, n)\<close> for every \<open>n \<ge> 1\<close>.  For \<open>n = 2 ^ 27 + 1\<close> the triangular number is odd and
  above \<open>2 ^ 53\<close>, its square fails the perfect-square test and the function returns
  \<open>(False, 0)\<close>.
\<close>

theorem is_square_of_triangular_large_round_trip:
  "triangular_number 134217729 = 9007199456067585 \<and>
   is_square_of_triangular (triangular_number 134217729 * triangular_number 134217729) =
     Inr (False, 0)"
proof -
  have t: "triangular_number 134217729 = 9007199456067585"
    by (simp add: triangular_number_def)
  have "is_perfect_square 81129642041384199086472087732225 = Inr False"
    by (simp add: is_perfect_square_def int_sqrt_square_of_triangular)
  then show ?thesis by (simp add: t is_square_of_triangular_def)
qed

end
